theory Spec2Isabelle
  imports Main
begin

section \<open>Values, records and errors\<close>

text \<open>
  The program is dynamically typed: the fields of a \<open>DictionaryEntry\<close> are whatever the
  JSON decoder produced. A decoded JSON document is modelled by \<open>json\<close>; an object is the
  association list of the decoded dict (one binding per key). Numbers are only carried
  around by this program, never computed with, and are kept as integers.
\<close>

datatype json =
    JNull
  | JBool bool
  | JNum int
  | JStr string
  | JArr "json list"
  | JObj "(string \<times> json) list"

text \<open>\<open>class DictionaryEntry\<close>; the absent example (\<open>None\<close>) is \<open>JNull\<close>.\<close>

record DictionaryEntry =
  word :: json
  part_of_speech :: json
  definition' :: json
  example :: json

text \<open>
  What a backing source's \<open>search\<close> can return, and what \<open>add\<close> tests with
  \<open>isinstance\<close>: a \<open>DictionaryEntry\<close> object or a plain string.
\<close>

datatype pyval = Entry DictionaryEntry | Str string

text \<open>The exceptions of the program, with their message.\<close>

datatype error =
    KeyError string
  | TypeError string
  | ValueError string
  | RuntimeError string
  | IndexError string
  | ConnectionError string

fun is_KeyError :: "error \<Rightarrow> bool" where
  "is_KeyError (KeyError m) = True"
| "is_KeyError e = False"

fun is_RuntimeError :: "error \<Rightarrow> bool" where
  "is_RuntimeError (RuntimeError m) = True"
| "is_RuntimeError e = False"

text \<open>
  A method that mutates \<open>self\<close> and may raise returns the outcome together with the
  object as the call left it: an exception does not undo the mutations made before it.
\<close>

type_synonym ('a, 's) outcome = "(error + 'a) \<times> 's"

section \<open>The linked sequence \<open>DataList\<close>\<close>

text \<open>
  Modelled from the spec: the base class \<open>DataList\<close> of module \<open>datalist\<close>, which
  \<open>main.py\<close> imports and which is not among the sources. Section 4.1 of the
  specification describes it: a chain of nodes from a head reference and a cursor
  (\<open>current\<close>) used by iteration. The chain is the list \<open>nodes\<close> of the data of the
  nodes, head first; a node is named by its position in the chain; the cursor is
  \<open>None\<close> before the first node and \<open>Some i\<close> at node \<open>i\<close>. The specification
  does not say what becomes of the cursor when a node is inserted or unlinked: these
  operations leave the field as it is, and every traversal of the program starts with
  \<open>reset_current\<close>.
\<close>

record 'a DataList =
  nodes :: "'a list"
  current :: "nat option"

text \<open>Modelled from the spec: \<open>addToHead(value)\<close> inserts a new node as the new head.\<close>

definition add_to_head :: "'a \<Rightarrow> ('a, 'z) DataList_scheme \<Rightarrow> ('a, 'z) DataList_scheme" where
  "add_to_head v l = l\<lparr>nodes := v # nodes l\<rparr>"

text \<open>Modelled from the spec: \<open>resetCursor()\<close> puts the cursor before the first node.\<close>

definition reset_current :: "('a, 'z) DataList_scheme \<Rightarrow> ('a, 'z) DataList_scheme" where
  "reset_current l = l\<lparr>current := None\<rparr>"

text \<open>
  Modelled from the spec: \<open>advance()\<close> returns the node after the cursor and moves the
  cursor to it, or returns an absent result when the sequence is exhausted.
\<close>

definition next_pos :: "('a, 'z) DataList_scheme \<Rightarrow> nat" where
  "next_pos l = (case current l of None \<Rightarrow> 0 | Some i \<Rightarrow> Suc i)"

definition iterate :: "('a, 'z) DataList_scheme \<Rightarrow> nat option \<times> ('a, 'z) DataList_scheme" where
  "iterate l =
     (if next_pos l < length (nodes l)
      then (Some (next_pos l), l\<lparr>current := Some (next_pos l)\<rparr>)
      else (None, l))"

text \<open>The fields \<open>node.data\<close> and \<open>node.next\<close> of the node at position \<open>i\<close>.\<close>

definition node_data :: "('a, 'z) DataList_scheme \<Rightarrow> nat \<Rightarrow> 'a" where
  "node_data l i = nodes l ! i"

definition node_next :: "('a, 'z) DataList_scheme \<Rightarrow> nat \<Rightarrow> nat option" where
  "node_next l i = (if Suc i < length (nodes l) then Some (Suc i) else None)"

text \<open>
  Modelled from the spec: \<open>removeAfter(node)\<close> unlinks the node that follows \<open>node\<close> and
  reports an invariant violation if there is none.
\<close>

definition remove_after ::
  "nat \<Rightarrow> ('a, 'z) DataList_scheme \<Rightarrow> (unit, ('a, 'z) DataList_scheme) outcome" where
  "remove_after i l =
     (case node_next l i of
        None \<Rightarrow> (Inl (RuntimeError ''no node to remove''), l)
      | Some j \<Rightarrow> (Inr (), l\<lparr>nodes := take j (nodes l) @ drop (Suc j) (nodes l)\<rparr>))"

text \<open>
  Modelled from the spec: \<open>remove(value)\<close> unlinks the first node whose data equals
  \<open>value\<close> and fails with a not-found condition if there is none.
\<close>

definition remove ::
  "'a \<Rightarrow> ('a, 'z) DataList_scheme \<Rightarrow> (unit, ('a, 'z) DataList_scheme) outcome" where
  "remove v l =
     (if v \<in> set (nodes l)
      then (Inr (), l\<lparr>nodes := remove1 v (nodes l)\<rparr>)
      else (Inl (KeyError ''value not in list''), l))"

section \<open>The cache \<open>DictionaryEntryCache\<close>\<close>

text \<open>\<open>class DictionaryEntryCache(DataList)\<close>: the inherited fields and two more.\<close>

record DictionaryEntryCache = "DictionaryEntry DataList" +
  capacity :: int
  count :: int

definition DictionaryEntryCache_init :: "int \<Rightarrow> error + DictionaryEntryCache" where
  "DictionaryEntryCache_init cap =
     (if cap < 1 then Inl (ValueError ''Capacity should be at least 1'')
      else Inr \<lparr>nodes = [], current = None, capacity = cap, count = 0\<rparr>)"

text \<open>
  The loop of \<open>remove_tail\<close>. \<open>current = self.iterate()\<close> stands before the loop and at
  the end of its body, so every test of \<open>while current\<close> follows a call of \<open>iterate\<close>:
  one round of the function is that call, the test, and the body.
\<close>

function remove_tail_loop :: "DictionaryEntryCache \<Rightarrow> (unit, DictionaryEntryCache) outcome" where
  "remove_tail_loop c =
     (case iterate c of
        (None, c') \<Rightarrow> (Inr (), c')
      | (Some cur, c') \<Rightarrow>
          (case node_next c' cur of
             None \<Rightarrow> (Inl (RuntimeError ''Something's very wrong''), c')
           | Some nxt \<Rightarrow>
               (case node_next c' nxt of
                  None \<Rightarrow> remove_after cur c'
                | Some _ \<Rightarrow> remove_tail_loop c')))"
  by pat_completeness auto
termination
  by (relation "measure (\<lambda>c. length (nodes c) - next_pos c)")
     (auto simp: iterate_def next_pos_def node_next_def split: if_splits option.splits)

definition DictionaryEntryCache_remove_tail :: "DictionaryEntryCache \<Rightarrow> (unit, DictionaryEntryCache) outcome" where
  "DictionaryEntryCache_remove_tail c =
     (case remove_tail_loop (reset_current c) of
        (Inl e, c') \<Rightarrow> (Inl e, c')
      | (Inr u, c') \<Rightarrow> (Inr (), c'\<lparr>count := count c' - 1\<rparr>))"

definition DictionaryEntryCache_add :: "pyval \<Rightarrow> DictionaryEntryCache \<Rightarrow> (unit, DictionaryEntryCache) outcome" where
  "DictionaryEntryCache_add v c =
     (case v of
        Str s \<Rightarrow> (Inl (TypeError ''entry should be DictionaryEntry''), c)
      | Entry entry \<Rightarrow>
          (let c1 = add_to_head entry c;
               c2 = c1\<lparr>count := count c1 + 1\<rparr>
           in if count c2 > capacity c2 then DictionaryEntryCache_remove_tail c2 else (Inr (), c2)))"

text \<open>
  The loop of \<open>DictionaryEntryCache.search\<close>, in the same form. \<open>DictionaryEntry\<close>
  defines no equality of its own, so \<open>self.remove(entry)\<close> looks for the object itself,
  where the model looks for an equal record. Both unlink the node the loop stands at: a
  node before it carries another word, hence is neither the object nor equal to it.
\<close>

function search_loop ::
  "string \<Rightarrow> DictionaryEntryCache \<Rightarrow> (DictionaryEntry, DictionaryEntryCache) outcome" where
  "search_loop w c =
     (case iterate c of
        (None, c') \<Rightarrow> (Inl (KeyError (''Cannot find '' @ w)), c')
      | (Some cur, c') \<Rightarrow>
          (if word (node_data c' cur) = JStr w
           then (let entry = node_data c' cur
                 in case remove entry c' of
                      (Inl e, c1) \<Rightarrow> (Inl e, c1)
                    | (Inr u, c1) \<Rightarrow> (Inr entry, add_to_head entry c1))
           else search_loop w c'))"
  by pat_completeness auto
termination
  by (relation "measure (\<lambda>(w, c). length (nodes c) - next_pos c)")
     (auto simp: iterate_def next_pos_def split: if_splits option.splits)

definition DictionaryEntryCache_search ::
  "string \<Rightarrow> DictionaryEntryCache \<Rightarrow> (DictionaryEntry, DictionaryEntryCache) outcome" where
  "DictionaryEntryCache_search w c = search_loop w (reset_current c)"

section \<open>The backing sources\<close>

text \<open>
  \<open>LocalDictionary\<close>: the dict \<open>self.dictionary\<close> that the constructor fills from the
  file, restricted to its string keys (\<open>search\<close> is called with a string, which equals
  no key of another type).
\<close>

type_synonym LocalDictionary = "string \<rightharpoonup> DictionaryEntry"

definition LocalDictionary_search :: "LocalDictionary \<Rightarrow> string \<Rightarrow> error + pyval" where
  "LocalDictionary_search self w =
     (case self w of None \<Rightarrow> Inl (KeyError w) | Some d \<Rightarrow> Inr (Entry d))"

record OxfordDictionary =
  APP_ID :: string
  APP_KEY :: string

definition OxfordDictionary_init :: OxfordDictionary where
  "OxfordDictionary_init =
     \<lparr>APP_ID = ''5a065188'', APP_KEY = ''cb986155975e3c58923550cdd197660c''\<rparr>"

text \<open>
  \<open>str.lower()\<close> on the characters of \<open>string\<close>, which are bytes: the ASCII capitals
  move to their small letters and every other byte stays. Python lowers the capitals
  beyond ASCII as well; on a word with such a letter the URL of the model differs from
  the program's. The words used below are ASCII.
\<close>

definition lower_char :: "char \<Rightarrow> char" where
  "lower_char c =
     (let n = (of_char c :: nat) in if 65 \<le> n \<and> n \<le> 90 then char_of (n + 32) else c)"

definition lower :: "string \<Rightarrow> string" where
  "lower s = map lower_char s"

text \<open>\<open>"{}".format(n)\<close> for an integer: its decimal digits.\<close>

fun digits :: "nat \<Rightarrow> string" where
  "digits n =
     (if n < 10 then [char_of (48 + n)]
      else digits (n div 10) @ [char_of (48 + n mod 10)])"

definition str_int :: "int \<Rightarrow> string" where
  "str_int i = (if i < 0 then CHR ''-'' # digits (nat (- i)) else digits (nat i))"

text \<open>
  Python's subscription \<open>v[k]\<close> on a decoded JSON value, for a string key and for a
  non-negative integer index, with the exception each combination raises.
\<close>

datatype subscript = Key string | Idx nat

fun getitem :: "json \<Rightarrow> subscript \<Rightarrow> error + json" where
  "getitem (JObj kvs) (Key k) =
     (case map_of kvs k of None \<Rightarrow> Inl (KeyError k) | Some v \<Rightarrow> Inr v)"
| "getitem (JObj kvs) (Idx n) = Inl (KeyError (str_int (int n)))"
| "getitem (JArr xs) (Idx n) =
     (if n < length xs then Inr (xs ! n) else Inl (IndexError ''list index out of range''))"
| "getitem (JArr xs) (Key k) = Inl (TypeError ''list indices must be integers or slices, not str'')"
| "getitem (JStr s) (Idx n) =
     (if n < length s then Inr (JStr [s ! n]) else Inl (IndexError ''string index out of range''))"
| "getitem (JStr s) (Key k) = Inl (TypeError ''string indices must be integers'')"
| "getitem v k = Inl (TypeError ''object is not subscriptable'')"

text \<open>A chain of subscriptions \<open>v[k1][k2]...\<close>, evaluated left to right.\<close>

fun getpath :: "json \<Rightarrow> subscript list \<Rightarrow> error + json" where
  "getpath v [] = Inr v"
| "getpath v (k # ks) = (case getitem v k of Inl e \<Rightarrow> Inl e | Inr v' \<Rightarrow> getpath v' ks)"

text \<open>
  The network: \<open>requests.get(url, headers=...)\<close> either raises or gives a response, whose
  \<open>status_code\<close> is an integer and whose \<open>json()\<close> either raises (the body is not JSON)
  or gives the decoded body.
\<close>

record response =
  status_code :: int
  json_body :: "error + json"

type_synonym http = "string \<Rightarrow> (string \<times> string) list \<Rightarrow> error + response"

definition oxford_url :: "string \<Rightarrow> string" where
  "oxford_url w =
     (let language = ''en-gb''; word_id = w
      in ''https://od-api.oxforddictionaries.com:443/api/v2/entries/'' @ language @ ''/ '' @ lower word_id)"

definition oxford_headers :: "OxfordDictionary \<Rightarrow> (string \<times> string) list" where
  "oxford_headers self = [(''app_id'', APP_ID self), (''app_key'', APP_KEY self)]"

definition first_sense :: "subscript list" where
  "first_sense =
     [Key ''results'', Idx 0, Key ''lexicalEntries'', Idx 0, Key ''entries'', Idx 0, Key ''senses'', Idx 0]"

text \<open>
  The part of \<open>OxfordDictionary.search\<close> after the request. The test
  \<open>status_resp is not 200\<close> compares an integer with the small integer 200, of which the
  interpreter keeps one object: it is \<open>status_resp != 200\<close>. Each \<open>except KeyError\<close>
  catches that class only.
\<close>

definition oxford_decode :: "response \<Rightarrow> error + pyval" where
  "oxford_decode r =
     (case json_body r of
        Inl e \<Rightarrow> Inl e
      | Inr json_resp \<Rightarrow>
          if status_code r \<noteq> 200 then Inl (KeyError (''code '' @ str_int (status_code r)))
          else
            (case getitem json_resp (Key ''id'') of
               Inl e \<Rightarrow> if is_KeyError e then Inr (Str ''word not found'') else Inl e
             | Inr word_resp \<Rightarrow>
                 (case getpath json_resp
                         [Key ''results'', Idx 0, Key ''lexicalEntries'', Idx 0,
                          Key ''lexicalCategory'', Key ''id''] of
                    Inl e \<Rightarrow> Inl e
                  | Inr part_of_speech_resp \<Rightarrow>
                      (case getpath json_resp (first_sense @ [Key ''definitions'', Idx 0]) of
                         Inl e \<Rightarrow> Inl e
                       | Inr definition_resp \<Rightarrow>
                           (case getpath json_resp
                                   (first_sense @ [Key ''examples'', Idx 0, Key ''text'']) of
                              Inl e \<Rightarrow>
                                if is_KeyError e
                                then Inr (Entry \<lparr>word = word_resp,
                                                 part_of_speech = part_of_speech_resp,
                                                 definition' = definition_resp,
                                                 example = JNull\<rparr>)
                                else Inl e
                            | Inr example_resp \<Rightarrow>
                                Inr (Entry \<lparr>word = word_resp,
                                            part_of_speech = part_of_speech_resp,
                                            definition' = definition_resp,
                                            example = example_resp\<rparr>))))))"

text \<open>
  \<open>OxfordDictionary.search\<close>: the requests it issues, in order, and its outcome. The
  parameter \<open>get\<close> is the network.
\<close>

definition OxfordDictionary_search ::
  "OxfordDictionary \<Rightarrow> http \<Rightarrow> string \<Rightarrow> (string \<times> (string \<times> string) list) list \<times> (error + pyval)" where
  "OxfordDictionary_search self get w =
     (let url = oxford_url w;
          headers = oxford_headers self
      in ([(url, headers)],
          (case get url headers of
             Inl e \<Rightarrow> Inl e
           | Inr r \<Rightarrow> oxford_decode r)))"

section \<open>The orchestrator \<open>Dictionary\<close>\<close>

datatype DictionarySource = LOCAL | CACHE | OXFORD_ONLINE

text \<open>The object behind \<open>self.dictionary\<close>: one of the two source classes.\<close>

datatype backing = Oxford OxfordDictionary | Local LocalDictionary

record Dictionary =
  dictionary :: backing
  source :: DictionarySource
  dictionary_entry_cache :: DictionaryEntryCache

text \<open>
  \<open>Dictionary.__init__\<close>. The parameter \<open>local\<close> is the outcome of the call
  \<open>LocalDictionary()\<close>, which reads the file \<open>dictionary.json\<close>. The first assignment
  to \<open>self.dictionary\<close> cannot fail and is overwritten or abandoned by what follows.
\<close>

definition Dictionary_init :: "DictionarySource \<Rightarrow> error + LocalDictionary \<Rightarrow> error + Dictionary" where
  "Dictionary_init src local =
     (case (if src = OXFORD_ONLINE then Inr (Oxford OxfordDictionary_init)
            else if src = LOCAL then (case local of Inl e \<Rightarrow> Inl e | Inr l \<Rightarrow> Inr (Local l))
            else Inl (ValueError [])) of
        Inl e \<Rightarrow> Inl e
      | Inr d \<Rightarrow>
          (case DictionaryEntryCache_init 1 of
             Inl e \<Rightarrow> Inl e
           | Inr c \<Rightarrow> Inr \<lparr>dictionary = d, source = src, dictionary_entry_cache = c\<rparr>))"

text \<open>\<open>self.dictionary.search(word)\<close>, dispatched on the class of the object.\<close>

definition backing_search :: "backing \<Rightarrow> http \<Rightarrow> string \<Rightarrow> error + pyval" where
  "backing_search b get w =
     (case b of
        Oxford ox \<Rightarrow> snd (OxfordDictionary_search ox get w)
      | Local l \<Rightarrow> LocalDictionary_search l w)"

text \<open>
  \<open>Dictionary.search\<close>. The handler \<open>except KeyError\<close> covers the call of the cache's
  \<open>search\<close> only; whatever the handler's body raises leaves the method.
\<close>

definition Dictionary_search ::
  "http \<Rightarrow> string \<Rightarrow> Dictionary \<Rightarrow> (pyval \<times> DictionarySource, Dictionary) outcome" where
  "Dictionary_search get w self =
     (case DictionaryEntryCache_search w (dictionary_entry_cache self) of
        (Inr entry, c) \<Rightarrow> (Inr (Entry entry, CACHE), self\<lparr>dictionary_entry_cache := c\<rparr>)
      | (Inl err, c) \<Rightarrow>
          if is_KeyError err
          then (case backing_search (dictionary self) get w of
                  Inl e \<Rightarrow> (Inl e, self\<lparr>dictionary_entry_cache := c\<rparr>)
                | Inr entry \<Rightarrow>
                    (case DictionaryEntryCache_add entry c of
                       (Inl e, c') \<Rightarrow> (Inl e, self\<lparr>dictionary_entry_cache := c'\<rparr>)
                     | (Inr u, c') \<Rightarrow>
                         (Inr (entry, source self), self\<lparr>dictionary_entry_cache := c'\<rparr>)))
          else (Inl err, self\<lparr>dictionary_entry_cache := c\<rparr>))"

section \<open>Notions used by the properties\<close>

text \<open>
  The invariant of the cache between calls: the capacity is at least 1, \<open>count\<close> is the
  number of nodes, and it does not exceed the capacity.
\<close>

definition cache_inv :: "DictionaryEntryCache \<Rightarrow> bool" where
  "cache_inv c \<longleftrightarrow>
     1 \<le> capacity c \<and> count c = int (length (nodes c)) \<and> count c \<le> capacity c"

text \<open>A sequence of \<open>add\<close> calls, oldest first, stopping at the first exception.\<close>

fun add_all :: "DictionaryEntry list \<Rightarrow> DictionaryEntryCache \<Rightarrow> (unit, DictionaryEntryCache) outcome" where
  "add_all [] c = (Inr (), c)"
| "add_all (e # es) c =
     (case DictionaryEntryCache_add (Entry e) c of
        (Inl x, c') \<Rightarrow> (Inl x, c')
      | (Inr u, c') \<Rightarrow> add_all es c')"

text \<open>
  A use of the cache through its two public methods. A caller may catch an exception and
  go on, so a run collects the exceptions raised and continues from the state each call
  left.
\<close>

datatype cache_call = Add pyval | Search string

fun do_call :: "cache_call \<Rightarrow> DictionaryEntryCache \<Rightarrow> error list \<times> DictionaryEntryCache" where
  "do_call (Add v) c =
     (case DictionaryEntryCache_add v c of (Inl x, c') \<Rightarrow> ([x], c') | (Inr u, c') \<Rightarrow> ([], c'))"
| "do_call (Search w) c =
     (case DictionaryEntryCache_search w c of (Inl x, c') \<Rightarrow> ([x], c') | (Inr e, c') \<Rightarrow> ([], c'))"

fun run_calls :: "cache_call list \<Rightarrow> DictionaryEntryCache \<Rightarrow> error list \<times> DictionaryEntryCache" where
  "run_calls [] c = ([], c)"
| "run_calls (k # ks) c =
     (case do_call k c of
        (xs, c') \<Rightarrow> (case run_calls ks c' of (ys, c'') \<Rightarrow> (xs @ ys, c'')))"

text \<open>The tier that names a backing source variant.\<close>

fun tier_of :: "backing \<Rightarrow> DictionarySource" where
  "tier_of (Oxford ox) = OXFORD_ONLINE"
| "tier_of (Local l) = LOCAL"

text \<open>
  The invariant of the orchestrator between calls: its cache satisfies \<open>cache_inv\<close> and
  its tag names the class of its backing source.
\<close>

definition Dictionary_inv :: "Dictionary \<Rightarrow> bool" where
  "Dictionary_inv d \<longleftrightarrow>
     cache_inv (dictionary_entry_cache d) \<and> source d = tier_of (dictionary d)"

text \<open>No resident entry carries the word.\<close>

definition cache_miss :: "string \<Rightarrow> DictionaryEntryCache \<Rightarrow> bool" where
  "cache_miss w c \<longleftrightarrow> list_all (\<lambda>x. word x \<noteq> JStr w) (nodes c)"

text \<open>
  The two routes on which a backing source raises \<open>KeyError\<close> for a word it does not
  have: the local dict has no such key; the remote service answers the request for it
  with a JSON body and a status other than 200. The remote source has a third route for
  such a word, an answer with status 200 and no field \<open>id\<close>, on which it raises nothing.
\<close>

definition answers_not_found :: "error + response \<Rightarrow> bool" where
  "answers_not_found a =
     (case a of
        Inl e \<Rightarrow> False
      | Inr r \<Rightarrow> status_code r \<noteq> 200 \<and> (case json_body r of Inl e \<Rightarrow> False | Inr j \<Rightarrow> True))"

definition backing_not_found :: "backing \<Rightarrow> http \<Rightarrow> string \<Rightarrow> bool" where
  "backing_not_found b get w =
     (case b of
        Local l \<Rightarrow> l w = None
      | Oxford ox \<Rightarrow> answers_not_found (get (oxford_url w) (oxford_headers ox)))"

text \<open>\<open>n\<close> calls of \<open>Dictionary.search\<close> for the same word in a row: their outcomes, in order.\<close>

fun search_n ::
  "http \<Rightarrow> string \<Rightarrow> nat \<Rightarrow> Dictionary \<Rightarrow> (error + pyval \<times> DictionarySource) list \<times> Dictionary" where
  "search_n get w 0 d = ([], d)"
| "search_n get w (Suc n) d =
     (case Dictionary_search get w d of
        (r, d') \<Rightarrow> (case search_n get w n d' of (rs, d'') \<Rightarrow> (r # rs, d'')))"

text \<open>Concrete entries, a service and orchestrators for the examples below.\<close>

definition entry_run :: DictionaryEntry where
  "entry_run = \<lparr>word = JStr ''run'', part_of_speech = JStr ''verb'',
                 definition' = JStr ''move at speed'', example = JStr ''he can run fast''\<rparr>"

definition entry_walk :: DictionaryEntry where
  "entry_walk = \<lparr>word = JStr ''walk'', part_of_speech = JStr ''verb'',
                  definition' = JStr ''move on foot'', example = JNull\<rparr>"

definition entry_sit :: DictionaryEntry where
  "entry_sit = \<lparr>word = JStr ''sit'', part_of_speech = JStr ''verb'',
                 definition' = JStr ''be seated'', example = JNull\<rparr>"

definition entry_python :: DictionaryEntry where
  "entry_python = \<lparr>word = JStr ''python'', part_of_speech = JStr ''noun'',
                    definition' = JStr ''a large snake'', example = JNull\<rparr>"

definition python_body :: json where
  "python_body =
     JObj [(''id'', JStr ''python''),
           (''results'',
            JArr [JObj [(''lexicalEntries'',
              JArr [JObj [(''lexicalCategory'', JObj [(''id'', JStr ''noun'')]),
                          (''entries'',
                           JArr [JObj [(''senses'',
                             JArr [JObj [(''definitions'', JArr [JStr ''a large snake''])]])]])]])]])]"

text \<open>
  A service that knows the word \<open>python\<close>: it answers the request for it with status 200
  and the body above, and every other request with status 404 and an error body.
\<close>

definition python_service :: http where
  "python_service url headers =
     (if url = ''https://od-api.oxforddictionaries.com:443/api/v2/entries/en-gb/ python''
      then Inr \<lparr>status_code = 200, json_body = Inr python_body\<rparr>
      else Inr \<lparr>status_code = 404, json_body = Inr (JObj [(''error'', JStr ''No entry found'')])\<rparr>)"

text \<open>A service whose answer has status 200 and no field \<open>id\<close>.\<close>

definition no_id_service :: http where
  "no_id_service url headers =
     Inr \<lparr>status_code = 200, json_body = Inr (JObj [(''error'', JStr ''No entry found'')])\<rparr>"

definition empty_cache :: DictionaryEntryCache where
  "empty_cache = \<lparr>nodes = [], current = None, capacity = 1, count = 0\<rparr>"

definition oxford_dictionary :: Dictionary where
  "oxford_dictionary =
     \<lparr>dictionary = Oxford OxfordDictionary_init, source = OXFORD_ONLINE,
      dictionary_entry_cache = empty_cache\<rparr>"

definition local_run :: LocalDictionary where
  "local_run = [''run'' \<mapsto> entry_run]"

definition local_dictionary :: Dictionary where
  "local_dictionary =
     \<lparr>dictionary = Local local_run, source = LOCAL, dictionary_entry_cache = empty_cache\<rparr>"

text \<open>The two orchestrators above with \<open>run\<close> resident in the cache.\<close>

definition local_with_run :: Dictionary where
  "local_with_run =
     local_dictionary\<lparr>dictionary_entry_cache := empty_cache\<lparr>nodes := [entry_run], count := 1\<rparr>\<rparr>"

definition oxford_with_run :: Dictionary where
  "oxford_with_run =
     oxford_dictionary\<lparr>dictionary_entry_cache := empty_cache\<lparr>nodes := [entry_run], count := 1\<rparr>\<rparr>"

section \<open>The cache: what the two loops compute\<close>

text \<open>
  The defining equations of the two loops rewrite a call by its body, which contains the
  call again; they are used by hand and by computation induction only.
\<close>

declare remove_tail_loop.simps [simp del]
declare search_loop.simps [simp del]

lemma reset_current_fields [simp]:
  "nodes (reset_current c) = nodes c"
  "current (reset_current c) = None"
  by (simp_all add: reset_current_def)

lemma iterate_step:
  "next_pos c < length (nodes c) \<Longrightarrow>
   iterate c = (Some (next_pos c), c\<lparr>current := Some (next_pos c)\<rparr>)"
  by (simp add: iterate_def)

lemma iterate_end: "\<not> next_pos c < length (nodes c) \<Longrightarrow> iterate c = (None, c)"
  by (simp add: iterate_def)

lemma next_pos_at [simp]: "next_pos (c\<lparr>current := Some i\<rparr>) = Suc i"
  by (simp add: next_pos_def)

lemma next_pos_reset [simp]: "next_pos (reset_current c) = 0"
  by (simp add: next_pos_def reset_current_def)

lemma remove_tail_loop_two:
  "next_pos c + 2 \<le> length (nodes c) \<Longrightarrow>
   remove_tail_loop c =
     (Inr (), c\<lparr>nodes := butlast (nodes c), current := Some (length (nodes c) - 2)\<rparr>)"
proof (induction c rule: remove_tail_loop.induct)
  case (1 c)
  let ?n = "next_pos c"
  let ?c' = "c\<lparr>current := Some ?n\<rparr>"
  from "1.prems" have it: "iterate c = (Some ?n, ?c')"
    by (simp add: iterate_step)
  from "1.prems" have nx: "node_next ?c' ?n = Some (Suc ?n)"
    by (simp add: node_next_def)
  show ?case
  proof (cases "Suc (Suc ?n) < length (nodes c)")
    case True
    then have nn: "node_next ?c' (Suc ?n) = Some (Suc (Suc ?n))"
      by (simp add: node_next_def)
    have "remove_tail_loop c = remove_tail_loop ?c'"
      by (subst remove_tail_loop.simps) (simp add: it nx nn)
    also have "\<dots> = (Inr (), ?c'\<lparr>nodes := butlast (nodes ?c'), current := Some (length (nodes ?c') - 2)\<rparr>)"
      using True by (intro "1.IH"[OF it[symmetric] refl nx nn]) simp
    finally show ?thesis by simp
  next
    case False
    with "1.prems" have len: "length (nodes c) = Suc (Suc ?n)" by simp
    then have nn: "node_next ?c' (Suc ?n) = None"
      by (simp add: node_next_def)
    have bl: "take (Suc ?n) (nodes c) = butlast (nodes c)"
      using len by (simp add: butlast_conv_take)
    have "remove_tail_loop c = remove_after ?n ?c'"
      by (subst remove_tail_loop.simps) (simp add: it nx nn)
    then show ?thesis
      using len by (simp add: remove_after_def nx bl)
  qed
qed

lemma remove_tail_two:
  "2 \<le> length (nodes c) \<Longrightarrow>
   DictionaryEntryCache_remove_tail c =
     (Inr (), c\<lparr>nodes := butlast (nodes c), current := Some (length (nodes c) - 2),
                count := count c - 1\<rparr>)"
  by (simp add: DictionaryEntryCache_remove_tail_def remove_tail_loop_two)
     (simp add: reset_current_def)

lemma add_below:
  "count c < capacity c \<Longrightarrow>
   DictionaryEntryCache_add (Entry e) c =
     (Inr (), c\<lparr>nodes := e # nodes c, count := count c + 1\<rparr>)"
  by (simp add: DictionaryEntryCache_add_def add_to_head_def Let_def)

lemma add_full:
  assumes "cache_inv c" and "count c = capacity c"
  shows "DictionaryEntryCache_add (Entry e) c =
     (Inr (), c\<lparr>nodes := e # butlast (nodes c), current := Some (length (nodes c) - 1)\<rparr>)"
proof -
  let ?c2 = "c\<lparr>nodes := e # nodes c, count := count c + 1\<rparr>"
  from assms have ne: "nodes c \<noteq> []"
    by (auto simp: cache_inv_def)
  then have len: "2 \<le> length (nodes ?c2)"
    by (cases "nodes c") simp_all
  have "DictionaryEntryCache_add (Entry e) c = DictionaryEntryCache_remove_tail ?c2"
    using assms by (simp add: DictionaryEntryCache_add_def Let_def add_to_head_def)
  also have "\<dots> = (Inr (), ?c2\<lparr>nodes := butlast (nodes ?c2),
                 current := Some (length (nodes ?c2) - 2), count := count ?c2 - 1\<rparr>)"
    by (rule remove_tail_two[OF len])
  finally show ?thesis
    using ne by simp
qed

lemma add_Str:
  "DictionaryEntryCache_add (Str s) c = (Inl (TypeError ''entry should be DictionaryEntry''), c)"
  by (simp add: DictionaryEntryCache_add_def)

lemma add_inv:
  assumes "cache_inv c"
  shows "\<exists>c'. DictionaryEntryCache_add (Entry e) c = (Inr (), c') \<and> cache_inv c' \<and>
           capacity c' = capacity c \<and>
           nodes c' = take (nat (capacity c)) (e # nodes c)"
proof (cases "count c = capacity c")
  case True
  with assms have ne: "nodes c \<noteq> []" and len: "length (nodes c) = nat (capacity c)"
    by (auto simp: cache_inv_def)
  have "take (nat (capacity c)) (e # nodes c) = e # butlast (nodes c)"
    using ne len by (cases "nat (capacity c)") (simp_all add: butlast_conv_take)
  then show ?thesis
    using assms True ne by (simp add: add_full cache_inv_def)
next
  case False
  with assms have lt: "count c < capacity c"
    by (simp add: cache_inv_def)
  with assms have "length (e # nodes c) \<le> nat (capacity c)"
    by (simp add: cache_inv_def)
  then show ?thesis
    using assms lt by (simp add: add_below cache_inv_def)
qed

lemma search_loop_miss:
  "\<forall>j. next_pos c \<le> j \<and> j < length (nodes c) \<longrightarrow> word (nodes c ! j) \<noteq> JStr w \<Longrightarrow>
   \<exists>c'. search_loop w c = (Inl (KeyError (''Cannot find '' @ w)), c') \<and>
        nodes c' = nodes c \<and> count c' = count c \<and> capacity c' = capacity c"
proof (induction w c rule: search_loop.induct)
  case (1 w c)
  show ?case
  proof (cases "next_pos c < length (nodes c)")
    case False
    then show ?thesis
      by (subst search_loop.simps) (simp add: iterate_end)
  next
    case True
    let ?c' = "c\<lparr>current := Some (next_pos c)\<rparr>"
    from True have it: "iterate c = (Some (next_pos c), ?c')"
      by (rule iterate_step)
    from True "1.prems" have ne: "word (node_data ?c' (next_pos c)) \<noteq> JStr w"
      by (simp add: node_data_def)
    have eq: "search_loop w c = search_loop w ?c'"
      by (subst search_loop.simps) (simp add: it ne)
    from "1.prems" have "\<forall>j. next_pos ?c' \<le> j \<and> j < length (nodes ?c') \<longrightarrow>
        word (nodes ?c' ! j) \<noteq> JStr w"
      by simp
    from "1.IH"[OF it[symmetric] refl ne this] show ?thesis
      by (simp add: eq)
  qed
qed

lemma search_miss:
  assumes "cache_miss w c"
  shows "\<exists>c'. DictionaryEntryCache_search w c = (Inl (KeyError (''Cannot find '' @ w)), c') \<and>
        nodes c' = nodes c \<and> count c' = count c \<and> capacity c' = capacity c"
proof -
  from assms have "\<forall>j. next_pos (reset_current c) \<le> j \<and> j < length (nodes (reset_current c)) \<longrightarrow>
      word (nodes (reset_current c) ! j) \<noteq> JStr w"
    by (simp add: cache_miss_def list_all_length)
  from search_loop_miss[OF this] show ?thesis
    by (simp add: DictionaryEntryCache_search_def reset_current_def)
qed

lemma search_loop_hit:
  assumes "nodes c = xs @ e # ys" and "\<forall>x\<in>set xs. word x \<noteq> JStr w" and "word e = JStr w"
    and "next_pos c \<le> length xs"
  shows "\<exists>c'. search_loop w c = (Inr e, c') \<and> nodes c' = e # xs @ ys \<and>
           count c' = count c \<and> capacity c' = capacity c"
  using assms
proof (induction w c rule: search_loop.induct)
  case (1 w c)
  let ?n = "next_pos c"
  let ?c' = "c\<lparr>current := Some ?n\<rparr>"
  from "1.prems" have lt: "?n < length (nodes c)" by simp
  then have it: "iterate c = (Some ?n, ?c')"
    by (rule iterate_step)
  show ?case
  proof (cases "?n = length xs")
    case True
    with "1.prems" have dat: "node_data ?c' ?n = e"
      by (simp add: node_data_def)
    from "1.prems" have "e \<notin> set xs" by auto
    then have rm: "remove1 e (xs @ e # ys) = xs @ ys"
      by (simp add: remove1_append)
    show ?thesis
      using "1.prems"(1,3) rm
      by (subst search_loop.simps) (simp add: it dat remove_def add_to_head_def)
  next
    case False
    with "1.prems" have less: "?n < length xs" by simp
    with "1.prems" have ne: "word (node_data ?c' ?n) \<noteq> JStr w"
      by (simp add: node_data_def nth_append)
    have eq: "search_loop w c = search_loop w ?c'"
      by (subst search_loop.simps) (simp add: it ne)
    have "\<exists>c''. search_loop w ?c' = (Inr e, c'') \<and> nodes c'' = e # xs @ ys \<and>
           count c'' = count ?c' \<and> capacity c'' = capacity ?c'"
      using "1.prems" less by (intro "1.IH"[OF it[symmetric] refl ne]) simp_all
    then show ?thesis
      by (simp add: eq)
  qed
qed

lemma search_hit:
  assumes "nodes c = xs @ e # ys" and "\<forall>x\<in>set xs. word x \<noteq> JStr w" and "word e = JStr w"
  shows "\<exists>c'. DictionaryEntryCache_search w c = (Inr e, c') \<and> nodes c' = e # xs @ ys \<and>
           count c' = count c \<and> capacity c' = capacity c"
proof -
  have "\<exists>c'. search_loop w (reset_current c) = (Inr e, c') \<and> nodes c' = e # xs @ ys \<and>
           count c' = count (reset_current c) \<and> capacity c' = capacity (reset_current c)"
    using assms by (intro search_loop_hit) simp_all
  then show ?thesis
    by (simp add: DictionaryEntryCache_search_def reset_current_def)
qed

lemma search_inv:
  assumes "cache_inv c" and "DictionaryEntryCache_search w c = (r, c')"
  shows "cache_inv c'"
proof (cases "cache_miss w c")
  case True
  from search_miss[OF this] assms show ?thesis
    by (auto simp: cache_inv_def)
next
  case False
  then have "\<exists>x\<in>set (nodes c). word x = JStr w"
    by (auto simp: cache_miss_def list_all_iff)
  then obtain xs e ys where "nodes c = xs @ e # ys" "word e = JStr w"
      "\<forall>x\<in>set xs. word x \<noteq> JStr w"
    by (auto dest!: split_list_first_prop)
  from search_hit[OF this(1,3,2)] assms show ?thesis
    by (auto simp: cache_inv_def \<open>nodes c = xs @ e # ys\<close>)
qed

lemma init_inv:
  assumes "DictionaryEntryCache_init cap = Inr c0"
  shows "cache_inv c0 \<and> nodes c0 = [] \<and> capacity c0 = cap \<and> 1 \<le> cap"
  using assms by (auto simp: DictionaryEntryCache_init_def cache_inv_def split: if_splits)

lemma init_ok:
  "1 \<le> cap \<Longrightarrow>
   DictionaryEntryCache_init cap = Inr \<lparr>nodes = [], current = None, capacity = cap, count = 0\<rparr>"
  by (simp add: DictionaryEntryCache_init_def)

lemma take_append_take: "take k (xs @ take k ys) = take k (xs @ ys)"
  by (simp add: min_def)

lemma add_all_inv:
  "cache_inv c \<Longrightarrow>
   \<exists>c'. add_all es c = (Inr (), c') \<and> cache_inv c' \<and> capacity c' = capacity c \<and>
        nodes c' = take (nat (capacity c)) (rev es @ nodes c)"
proof (induction es arbitrary: c)
  case Nil
  then have "length (nodes c) \<le> nat (capacity c)"
    unfolding cache_inv_def by linarith
  with Nil show ?case by simp
next
  case (Cons e es)
  from add_inv[OF Cons.prems, of e] obtain c1 where
    c1: "DictionaryEntryCache_add (Entry e) c = (Inr (), c1)" "cache_inv c1"
      "capacity c1 = capacity c" "nodes c1 = take (nat (capacity c)) (e # nodes c)"
    by blast
  from Cons.IH[OF c1(2)] obtain c' where
    c': "add_all es c1 = (Inr (), c')" "cache_inv c'" "capacity c' = capacity c1"
      "nodes c' = take (nat (capacity c1)) (rev es @ nodes c1)"
    by blast
  have "nodes c' = take (nat (capacity c)) (rev (e # es) @ nodes c)"
    using c'(4) c1(3,4) by (simp add: take_append_take del: take_append)
  with c1 c' show ?case by simp
qed

lemma search_outcome:
  assumes "cache_inv c"
  shows "\<exists>r c'. DictionaryEntryCache_search w c = (r, c') \<and> cache_inv c' \<and>
           (case r of Inl x \<Rightarrow> is_KeyError x | Inr e \<Rightarrow> True)"
proof (cases "cache_miss w c")
  case True
  from search_miss[OF this] assms show ?thesis
    by (auto simp: cache_inv_def)
next
  case False
  obtain r c' where rc: "DictionaryEntryCache_search w c = (r, c')"
    by (cases "DictionaryEntryCache_search w c")
  from False have "\<exists>x\<in>set (nodes c). word x = JStr w"
    by (auto simp: cache_miss_def list_all_iff)
  then obtain xs e ys where "nodes c = xs @ e # ys" "word e = JStr w"
      "\<forall>x\<in>set xs. word x \<noteq> JStr w"
    by (auto dest!: split_list_first_prop)
  from search_hit[OF this(1,3,2)] rc have "r = Inr e" by auto
  with rc search_inv[OF assms rc] show ?thesis by simp
qed

lemma do_call_inv:
  assumes "cache_inv c"
  shows "\<exists>xs c'. do_call k c = (xs, c') \<and> cache_inv c' \<and> list_all (\<lambda>x. \<not> is_RuntimeError x) xs"
proof (cases k)
  case (Add v)
  show ?thesis
  proof (cases v)
    case (Entry e)
    from add_inv[OF assms, of e] show ?thesis
      by (auto simp: Add Entry)
  next
    case (Str s)
    with assms show ?thesis
      by (simp add: Add add_Str)
  qed
next
  case (Search w)
  from search_outcome[OF assms, of w] obtain r c' where
    rc: "DictionaryEntryCache_search w c = (r, c')" "cache_inv c'"
      "case r of Inl x \<Rightarrow> is_KeyError x | Inr e \<Rightarrow> True"
    by blast
  show ?thesis
  proof (cases r)
    case (Inl x)
    with rc(3) have "\<not> is_RuntimeError x" by (cases x) simp_all
    with rc Inl show ?thesis by (simp add: Search)
  next
    case (Inr e)
    with rc show ?thesis by (simp add: Search)
  qed
qed

lemma run_calls_inv:
  "cache_inv c \<Longrightarrow>
   \<exists>xs c'. run_calls ks c = (xs, c') \<and> cache_inv c' \<and> list_all (\<lambda>x. \<not> is_RuntimeError x) xs"
proof (induction ks arbitrary: c)
  case Nil
  then show ?case by simp
next
  case (Cons k ks)
  from do_call_inv[OF Cons.prems, of k] obtain xs c1 where
    s1: "do_call k c = (xs, c1)" "cache_inv c1" "list_all (\<lambda>x. \<not> is_RuntimeError x) xs"
    by blast
  from Cons.IH[OF s1(2)] obtain ys c2 where
    s2: "run_calls ks c1 = (ys, c2)" "cache_inv c2" "list_all (\<lambda>x. \<not> is_RuntimeError x) ys"
    by blast
  from s1 s2 show ?case by simp
qed

section \<open>The cache: its properties\<close>

text \<open>
  C4 (promotion). For every cache state and every word carried by a resident entry,
  \<open>DictionaryEntryCache.search\<close> returns the first entry from the head that carries the
  word, and afterwards that entry is the head and the other entries follow in the order
  they had; \<open>count\<close> and the capacity are as before.
\<close>

theorem search_promotes_to_head:
  assumes "\<exists>x\<in>set (nodes c). word x = JStr w"
  shows "\<exists>xs e ys c'.
           nodes c = xs @ e # ys \<and> word e = JStr w \<and> list_all (\<lambda>x. word x \<noteq> JStr w) xs \<and>
           DictionaryEntryCache_search w c = (Inr e, c') \<and>
           nodes c' = e # xs @ ys \<and> count c' = count c \<and> capacity c' = capacity c"
proof -
  from assms obtain xs e ys where split: "nodes c = xs @ e # ys" "word e = JStr w"
      "\<forall>x\<in>set xs. word x \<noteq> JStr w"
    by (auto dest!: split_list_first_prop)
  from search_hit[OF split(1,3,2)] obtain c' where
    "DictionaryEntryCache_search w c = (Inr e, c')" "nodes c' = e # xs @ ys"
    "count c' = count c" "capacity c' = capacity c"
    by blast
  with split show ?thesis
    by (auto simp: list_all_iff)
qed

theorem search_promotes_to_head_witness:
  "(\<exists>xs e ys c'.
      [entry_run, entry_walk, entry_sit] = xs @ e # ys \<and> word e = JStr ''walk'' \<and>
      list_all (\<lambda>x. word x \<noteq> JStr ''walk'') xs \<and>
      DictionaryEntryCache_search ''walk''
        \<lparr>nodes = [entry_run, entry_walk, entry_sit], current = None, capacity = 3, count = 3\<rparr>
        = (Inr e, c') \<and>
      nodes c' = e # xs @ ys \<and> count c' = 3 \<and> capacity c' = 3) \<and>
   fst (DictionaryEntryCache_search ''walk''
        \<lparr>nodes = [entry_run, entry_walk, entry_sit], current = None, capacity = 3, count = 3\<rparr>)
     = Inr entry_walk \<and>
   nodes (snd (DictionaryEntryCache_search ''walk''
        \<lparr>nodes = [entry_run, entry_walk, entry_sit], current = None, capacity = 3, count = 3\<rparr>))
     = [entry_walk, entry_run, entry_sit]"
proof -
  let ?c = "\<lparr>nodes = [entry_run, entry_walk, entry_sit], current = None, capacity = 3, count = 3\<rparr>"
  have pre: "\<exists>x\<in>set (nodes ?c). word x = JStr ''walk''"
    by (simp add: entry_walk_def)
  have run: "DictionaryEntryCache_search ''walk'' ?c =
      (Inr entry_walk, ?c\<lparr>nodes := [entry_walk, entry_run, entry_sit], current := Some 1\<rparr>)"
    by (simp add: DictionaryEntryCache_search_def reset_current_def search_loop.simps
        iterate_def next_pos_def node_data_def remove_def add_to_head_def Let_def
        entry_run_def entry_walk_def entry_sit_def)
  from search_promotes_to_head[OF pre] show ?thesis
    by (simp add: run)
qed

text \<open>
  C2 (capacity). A cache constructed with capacity \<open>cap \<ge> 1\<close> accepts every sequence of
  \<open>add\<close> calls; after it \<open>count\<close> is the number of resident entries and does not exceed
  \<open>cap\<close>; and an \<open>add\<close> performed when \<open>cap\<close> entries are resident succeeds, removes
  exactly the last (least recently touched) entry and leaves \<open>cap\<close> entries.
\<close>

theorem add_keeps_capacity:
  assumes "1 \<le> cap"
  shows "\<exists>c0 c. DictionaryEntryCache_init cap = Inr c0 \<and> add_all es c0 = (Inr (), c) \<and>
           count c = int (length (nodes c)) \<and> count c \<le> cap \<and>
           (\<forall>e. count c = cap \<longrightarrow>
              (\<exists>c'. DictionaryEntryCache_add (Entry e) c = (Inr (), c') \<and>
                    nodes c \<noteq> [] \<and> nodes c' = e # butlast (nodes c) \<and>
                    count c' = int (length (nodes c')) \<and> count c' = cap))"
proof -
  let ?c0 = "\<lparr>nodes = [], current = None, capacity = cap, count = 0\<rparr>"
  from assms have init: "DictionaryEntryCache_init cap = Inr ?c0"
    by (rule init_ok)
  from init_inv[OF init] have inv0: "cache_inv ?c0" by simp
  from add_all_inv[OF inv0, of es] obtain c where
    c: "add_all es ?c0 = (Inr (), c)" "cache_inv c" "capacity c = cap"
    by auto
  have full: "\<exists>c'. DictionaryEntryCache_add (Entry e) c = (Inr (), c') \<and>
                nodes c \<noteq> [] \<and> nodes c' = e # butlast (nodes c) \<and>
                count c' = int (length (nodes c')) \<and> count c' = cap"
    if "count c = cap" for e
  proof -
    from that c have eq: "count c = capacity c" by simp
    from c(2) eq have ne: "nodes c \<noteq> []"
      by (auto simp: cache_inv_def)
    from c(2) eq c(3) ne show ?thesis
      by (simp add: add_full[OF c(2) eq] cache_inv_def)
  qed
  from c have "count c = int (length (nodes c))" "count c \<le> cap"
    by (simp_all add: cache_inv_def)
  with init c(1) full show ?thesis by blast
qed

theorem add_keeps_capacity_witness:
  "(1::int) \<le> 2 \<and>
   DictionaryEntryCache_init 2 = Inr \<lparr>nodes = [], current = None, capacity = 2, count = 0\<rparr> \<and>
   add_all [entry_run, entry_walk] \<lparr>nodes = [], current = None, capacity = 2, count = 0\<rparr> =
     (Inr (), \<lparr>nodes = [entry_walk, entry_run], current = None, capacity = 2, count = 2\<rparr>) \<and>
   DictionaryEntryCache_add (Entry entry_sit)
       \<lparr>nodes = [entry_walk, entry_run], current = None, capacity = 2, count = 2\<rparr> =
     (Inr (), \<lparr>nodes = [entry_sit, entry_walk], current = Some 1, capacity = 2, count = 2\<rparr>)"
proof -
  have h: "(1::int) \<le> 2" by simp
  have a: "add_all [entry_run, entry_walk] \<lparr>nodes = [], current = None, capacity = 2, count = 0\<rparr> =
     (Inr (), \<lparr>nodes = [entry_walk, entry_run], current = None, capacity = 2, count = 2\<rparr>)"
    by (simp add: DictionaryEntryCache_add_def add_to_head_def Let_def)
  have b: "DictionaryEntryCache_add (Entry entry_sit)
       \<lparr>nodes = [entry_walk, entry_run], current = None, capacity = 2, count = 2\<rparr> =
     (Inr (), \<lparr>nodes = [entry_sit, entry_walk], current = Some 1, capacity = 2, count = 2\<rparr>)"
    by (simp add: DictionaryEntryCache_add_def add_to_head_def Let_def
        DictionaryEntryCache_remove_tail_def reset_current_def remove_tail_loop.simps
        iterate_def next_pos_def node_next_def remove_after_def)
  have i: "DictionaryEntryCache_init 2 = Inr \<lparr>nodes = [], current = None, capacity = 2, count = 0\<rparr>"
    by (simp add: DictionaryEntryCache_init_def)
  from add_keeps_capacity[OF h, of "[entry_run, entry_walk]"] show ?thesis
    using i a b by (simp del: add_all.simps)
qed

text \<open>
  C3 (eviction order). After \<open>cap + 1\<close> \<open>add\<close> calls with pairwise distinct words on a
  fresh cache of capacity \<open>cap \<ge> 1\<close>, and no \<open>search\<close> in between, the cache holds the
  last \<open>cap\<close> entries added, most recent first, and the entry added first is gone.
\<close>

theorem first_added_is_evicted:
  assumes "1 \<le> cap" and "length es = nat cap + 1" and "distinct (map word es)"
  shows "\<exists>c0 c. DictionaryEntryCache_init cap = Inr c0 \<and> add_all es c0 = (Inr (), c) \<and>
           nodes c = rev (tl es) \<and> hd es \<notin> set (nodes c) \<and> count c = cap"
proof -
  let ?c0 = "\<lparr>nodes = [], current = None, capacity = cap, count = 0\<rparr>"
  from assms(1) have init: "DictionaryEntryCache_init cap = Inr ?c0"
    by (rule init_ok)
  from init_inv[OF init] have inv0: "cache_inv ?c0" by simp
  from add_all_inv[OF inv0, of es] obtain c where
    c: "add_all es ?c0 = (Inr (), c)" "cache_inv c" "nodes c = take (nat cap) (rev es)"
    by auto
  from assms(2) obtain x xs where es: "es = x # xs" and len: "length xs = nat cap"
    by (cases es) auto
  from c(3) have nodes: "nodes c = rev xs"
    by (simp add: es len)
  from assms(3) have "distinct es"
    by (rule distinct_map[THEN iffD1, THEN conjunct1])
  then have "x \<notin> set xs" by (simp add: es)
  moreover from c(2) nodes len assms(1) have "count c = cap"
    by (simp add: cache_inv_def)
  ultimately show ?thesis
    using init c(1) nodes by (simp add: es)
qed

theorem first_added_is_evicted_witness:
  "(1::int) \<le> 2 \<and> length [entry_run, entry_walk, entry_sit] = nat 2 + 1 \<and>
   distinct (map word [entry_run, entry_walk, entry_sit]) \<and>
   DictionaryEntryCache_init 2 = Inr \<lparr>nodes = [], current = None, capacity = 2, count = 0\<rparr> \<and>
   add_all [entry_run, entry_walk, entry_sit]
       \<lparr>nodes = [], current = None, capacity = 2, count = 0\<rparr> =
     (Inr (), \<lparr>nodes = [entry_sit, entry_walk], current = Some 1, capacity = 2, count = 2\<rparr>)"
proof -
  have h1: "(1::int) \<le> 2" by simp
  have h2: "length [entry_run, entry_walk, entry_sit] = nat 2 + 1" by simp
  have h3: "distinct (map word [entry_run, entry_walk, entry_sit])"
    by (simp add: entry_run_def entry_walk_def entry_sit_def)
  have a: "add_all [entry_run, entry_walk, entry_sit]
       \<lparr>nodes = [], current = None, capacity = 2, count = 0\<rparr> =
     (Inr (), \<lparr>nodes = [entry_sit, entry_walk], current = Some 1, capacity = 2, count = 2\<rparr>)"
    by (simp add: DictionaryEntryCache_add_def add_to_head_def Let_def
        DictionaryEntryCache_remove_tail_def reset_current_def remove_tail_loop.simps
        iterate_def next_pos_def node_next_def remove_after_def)
  have i: "DictionaryEntryCache_init 2 = Inr \<lparr>nodes = [], current = None, capacity = 2, count = 0\<rparr>"
    by (simp add: DictionaryEntryCache_init_def)
  from first_added_is_evicted[OF h1 h2 h3] show ?thesis
    using h2 h3 i a by (simp del: add_all.simps)
qed

text \<open>
  C8 (the invariant violation is unreachable). On a cache that its constructor
  accepted, whatever sequence of \<open>add\<close> and \<open>search\<close> calls is made, with whatever
  arguments, and even when the caller goes on after an exception, no call raises a
  \<open>RuntimeError\<close>: \<open>remove_tail\<close>, which \<open>add\<close> alone calls, always finds two nodes.
\<close>

theorem remove_tail_never_fails:
  assumes "DictionaryEntryCache_init cap = Inr c0"
  shows "list_all (\<lambda>x. \<not> is_RuntimeError x) (fst (run_calls ks c0))"
proof -
  from init_inv[OF assms] have "cache_inv c0" by simp
  from run_calls_inv[OF this, of ks] show ?thesis by auto
qed

theorem remove_tail_never_fails_witness:
  "DictionaryEntryCache_init 1 = Inr empty_cache \<and>
   fst (run_calls [Add (Entry entry_run), Search ''walk'', Add (Str ''walk''),
                   Add (Entry entry_walk), Search ''walk''] empty_cache) =
     [KeyError ''Cannot find walk'', TypeError ''entry should be DictionaryEntry''] \<and>
   list_all (\<lambda>x. \<not> is_RuntimeError x)
     (fst (run_calls [Add (Entry entry_run), Search ''walk'', Add (Str ''walk''),
                      Add (Entry entry_walk), Search ''walk''] empty_cache))"
proof -
  have i: "DictionaryEntryCache_init 1 = Inr empty_cache"
    by (simp add: DictionaryEntryCache_init_def empty_cache_def)
  have r: "fst (run_calls [Add (Entry entry_run), Search ''walk'', Add (Str ''walk''),
                   Add (Entry entry_walk), Search ''walk''] empty_cache) =
     [KeyError ''Cannot find walk'', TypeError ''entry should be DictionaryEntry'']"
    by (simp add: empty_cache_def DictionaryEntryCache_add_def add_to_head_def Let_def
        DictionaryEntryCache_remove_tail_def reset_current_def remove_tail_loop.simps
        iterate_def next_pos_def node_next_def remove_after_def
        DictionaryEntryCache_search_def search_loop.simps node_data_def remove_def
        entry_run_def entry_walk_def)
  from remove_tail_never_fails[OF i] show ?thesis
    using i r by simp
qed

section \<open>The orchestrator: the paths of \<open>Dictionary.search\<close>\<close>

lemma Dictionary_search_hit:
  assumes "nodes (dictionary_entry_cache d) = xs @ e # ys"
    and "\<forall>x\<in>set xs. word x \<noteq> JStr w" and "word e = JStr w"
  shows "\<exists>c'. Dictionary_search get w d = (Inr (Entry e, CACHE), d\<lparr>dictionary_entry_cache := c'\<rparr>) \<and>
           nodes c' = e # xs @ ys \<and> count c' = count (dictionary_entry_cache d) \<and>
           capacity c' = capacity (dictionary_entry_cache d)"
proof -
  from search_hit[OF assms] obtain c' where
    "DictionaryEntryCache_search w (dictionary_entry_cache d) = (Inr e, c')"
    "nodes c' = e # xs @ ys" "count c' = count (dictionary_entry_cache d)"
    "capacity c' = capacity (dictionary_entry_cache d)"
    by blast
  then show ?thesis
    by (intro exI[of _ c']) (simp add: Dictionary_search_def)
qed

lemma Dictionary_search_miss_error:
  assumes "cache_miss w (dictionary_entry_cache d)"
    and "backing_search (dictionary d) get w = Inl x"
  shows "\<exists>c'. Dictionary_search get w d = (Inl x, d\<lparr>dictionary_entry_cache := c'\<rparr>) \<and>
           nodes c' = nodes (dictionary_entry_cache d) \<and>
           count c' = count (dictionary_entry_cache d) \<and>
           capacity c' = capacity (dictionary_entry_cache d)"
proof -
  from search_miss[OF assms(1)] obtain c' where
    "DictionaryEntryCache_search w (dictionary_entry_cache d) =
       (Inl (KeyError (''Cannot find '' @ w)), c')"
    "nodes c' = nodes (dictionary_entry_cache d)" "count c' = count (dictionary_entry_cache d)"
    "capacity c' = capacity (dictionary_entry_cache d)"
    by blast
  then show ?thesis
    by (intro exI[of _ c']) (simp add: Dictionary_search_def assms(2))
qed

lemma Dictionary_search_miss_Str:
  assumes "cache_miss w (dictionary_entry_cache d)"
    and "backing_search (dictionary d) get w = Inr (Str s)"
  shows "\<exists>c'. Dictionary_search get w d =
             (Inl (TypeError ''entry should be DictionaryEntry''),
              d\<lparr>dictionary_entry_cache := c'\<rparr>) \<and>
           nodes c' = nodes (dictionary_entry_cache d) \<and>
           count c' = count (dictionary_entry_cache d) \<and>
           capacity c' = capacity (dictionary_entry_cache d)"
proof -
  from search_miss[OF assms(1)] obtain c' where
    "DictionaryEntryCache_search w (dictionary_entry_cache d) =
       (Inl (KeyError (''Cannot find '' @ w)), c')"
    "nodes c' = nodes (dictionary_entry_cache d)" "count c' = count (dictionary_entry_cache d)"
    "capacity c' = capacity (dictionary_entry_cache d)"
    by blast
  then show ?thesis
    by (intro exI[of _ c']) (simp add: Dictionary_search_def assms(2) add_Str)
qed

lemma Dictionary_search_miss_Entry:
  assumes "cache_inv (dictionary_entry_cache d)" and "cache_miss w (dictionary_entry_cache d)"
    and "backing_search (dictionary d) get w = Inr (Entry e)"
  shows "\<exists>c'. Dictionary_search get w d =
             (Inr (Entry e, source d), d\<lparr>dictionary_entry_cache := c'\<rparr>) \<and>
           cache_inv c' \<and> capacity c' = capacity (dictionary_entry_cache d) \<and>
           nodes c' = e # take (nat (capacity (dictionary_entry_cache d)) - 1)
                           (nodes (dictionary_entry_cache d))"
proof -
  let ?c = "dictionary_entry_cache d"
  from search_miss[OF assms(2)] obtain c1 where
    c1: "DictionaryEntryCache_search w ?c = (Inl (KeyError (''Cannot find '' @ w)), c1)"
      "nodes c1 = nodes ?c" "count c1 = count ?c" "capacity c1 = capacity ?c"
    by blast
  with assms(1) have inv1: "cache_inv c1"
    by (simp add: cache_inv_def)
  from add_inv[OF inv1, of e] obtain c' where
    c': "DictionaryEntryCache_add (Entry e) c1 = (Inr (), c')" "cache_inv c'"
      "capacity c' = capacity c1" "nodes c' = take (nat (capacity c1)) (e # nodes c1)"
    by blast
  from assms(1) have "0 < nat (capacity ?c)"
    by (simp add: cache_inv_def)
  then have "take (nat (capacity ?c)) (e # nodes ?c) = e # take (nat (capacity ?c) - 1) (nodes ?c)"
    by (cases "nat (capacity ?c)") simp_all
  with c1 c' show ?thesis
    by (intro exI[of _ c']) (simp add: Dictionary_search_def assms(3))
qed

lemma Dictionary_init_inv:
  assumes "Dictionary_init src local = Inr d"
  shows "Dictionary_inv d \<and> source d = src \<and> nodes (dictionary_entry_cache d) = [] \<and>
         capacity (dictionary_entry_cache d) = 1"
  using assms
  by (auto simp: Dictionary_init_def Dictionary_inv_def DictionaryEntryCache_init_def
      cache_inv_def split: if_splits sum.splits)

lemma Dictionary_search_inv:
  assumes "Dictionary_inv d" and "Dictionary_search get w d = (r, d')"
  shows "Dictionary_inv d' \<and> dictionary d' = dictionary d \<and> source d' = source d"
proof (cases "cache_miss w (dictionary_entry_cache d)")
  case False
  then have "\<exists>x\<in>set (nodes (dictionary_entry_cache d)). word x = JStr w"
    by (auto simp: cache_miss_def list_all_iff)
  then obtain xs e ys where split: "nodes (dictionary_entry_cache d) = xs @ e # ys"
      "\<forall>x\<in>set xs. word x \<noteq> JStr w" "word e = JStr w"
    by (auto dest!: split_list_first_prop)
  from Dictionary_search_hit[OF split, of get] assms show ?thesis
    by (auto simp: Dictionary_inv_def cache_inv_def split(1))
next
  case True
  show ?thesis
  proof (cases "backing_search (dictionary d) get w")
    case (Inl x)
    from Dictionary_search_miss_error[OF True Inl] assms show ?thesis
      by (auto simp: Dictionary_inv_def cache_inv_def)
  next
    case (Inr v)
    show ?thesis
    proof (cases v)
      case (Entry e)
      from assms(1) have "cache_inv (dictionary_entry_cache d)"
        by (simp add: Dictionary_inv_def)
      from Dictionary_search_miss_Entry[OF this True Inr[unfolded Entry]] assms show ?thesis
        by (auto simp: Dictionary_inv_def)
    next
      case (Str s)
      from Dictionary_search_miss_Str[OF True Inr[unfolded Str]] assms show ?thesis
        by (auto simp: Dictionary_inv_def cache_inv_def)
    qed
  qed
qed

lemma search_n_hits:
  "nodes (dictionary_entry_cache d) = e # ys \<Longrightarrow> word e = JStr w \<Longrightarrow>
   fst (search_n get w n d) = replicate n (Inr (Entry e, CACHE))"
proof (induction n arbitrary: d)
  case 0
  then show ?case by simp
next
  case (Suc n)
  from Dictionary_search_hit[of d "[]" e ys w get] Suc.prems obtain c' where
    c': "Dictionary_search get w d = (Inr (Entry e, CACHE), d\<lparr>dictionary_entry_cache := c'\<rparr>)"
      "nodes c' = e # ys"
    by auto
  from Suc.IH[of "d\<lparr>dictionary_entry_cache := c'\<rparr>"] c'(2) Suc.prems(2)
  have "fst (search_n get w n (d\<lparr>dictionary_entry_cache := c'\<rparr>)) =
      replicate n (Inr (Entry e, CACHE))"
    by simp
  then show ?case
    by (auto simp: c'(1) split: prod.splits)
qed

lemma backing_not_found_KeyError:
  assumes "backing_not_found b get w"
  shows "\<exists>m. backing_search b get w = Inl (KeyError m)"
proof (cases b)
  case (Local l)
  with assms show ?thesis
    by (simp add: backing_not_found_def backing_search_def LocalDictionary_search_def)
next
  case (Oxford ox)
  with assms show ?thesis
    by (auto simp: backing_not_found_def backing_search_def OxfordDictionary_search_def
        answers_not_found_def oxford_decode_def Let_def split: sum.splits)
qed

section \<open>The orchestrator: its properties\<close>

text \<open>
  C1 (search protocol). \<open>Dictionary.search\<close> asks the cache first. When a resident entry
  carries the word, it returns the first such entry with the tier \<open>CACHE\<close>, promoted to
  the head, whatever the backing source is. When none does and the backing source
  returns a record, that record becomes the head of the cache, within the capacity, and
  is returned with the tier of the backing source variant.
\<close>

theorem search_cache_then_source:
  assumes "Dictionary_inv d"
  shows "(\<forall>xs e ys. nodes (dictionary_entry_cache d) = xs @ e # ys \<and>
            list_all (\<lambda>x. word x \<noteq> JStr w) xs \<and> word e = JStr w \<longrightarrow>
            (\<exists>c'. Dictionary_search get w d =
                     (Inr (Entry e, CACHE), d\<lparr>dictionary_entry_cache := c'\<rparr>) \<and>
                   nodes c' = e # xs @ ys)) \<and>
         (\<forall>e. cache_miss w (dictionary_entry_cache d) \<and>
              backing_search (dictionary d) get w = Inr (Entry e) \<longrightarrow>
            (\<exists>c'. Dictionary_search get w d =
                     (Inr (Entry e, tier_of (dictionary d)), d\<lparr>dictionary_entry_cache := c'\<rparr>) \<and>
                   nodes c' = e # take (nat (capacity (dictionary_entry_cache d)) - 1)
                                   (nodes (dictionary_entry_cache d)) \<and>
                   count c' = int (length (nodes c')) \<and>
                   count c' \<le> capacity (dictionary_entry_cache d)))"
proof (intro conjI allI impI)
  fix xs e ys
  assume "nodes (dictionary_entry_cache d) = xs @ e # ys \<and>
      list_all (\<lambda>x. word x \<noteq> JStr w) xs \<and> word e = JStr w"
  then have "nodes (dictionary_entry_cache d) = xs @ e # ys"
      "\<forall>x\<in>set xs. word x \<noteq> JStr w" "word e = JStr w"
    by (simp_all add: list_all_iff)
  from Dictionary_search_hit[OF this, of get]
  show "\<exists>c'. Dictionary_search get w d =
           (Inr (Entry e, CACHE), d\<lparr>dictionary_entry_cache := c'\<rparr>) \<and> nodes c' = e # xs @ ys"
    by blast
next
  fix e
  assume a: "cache_miss w (dictionary_entry_cache d) \<and>
      backing_search (dictionary d) get w = Inr (Entry e)"
  from assms have inv: "cache_inv (dictionary_entry_cache d)"
    and tier: "source d = tier_of (dictionary d)"
    by (simp_all add: Dictionary_inv_def)
  from Dictionary_search_miss_Entry[OF inv conjunct1[OF a] conjunct2[OF a]] obtain c' where
    c': "Dictionary_search get w d = (Inr (Entry e, source d), d\<lparr>dictionary_entry_cache := c'\<rparr>)"
      "cache_inv c'" "capacity c' = capacity (dictionary_entry_cache d)"
      "nodes c' = e # take (nat (capacity (dictionary_entry_cache d)) - 1)
                         (nodes (dictionary_entry_cache d))"
    by blast
  from c'(2,3) have "count c' = int (length (nodes c'))"
      "count c' \<le> capacity (dictionary_entry_cache d)"
    by (simp_all add: cache_inv_def)
  with c'(1,4) tier
  show "\<exists>c'. Dictionary_search get w d =
           (Inr (Entry e, tier_of (dictionary d)), d\<lparr>dictionary_entry_cache := c'\<rparr>) \<and>
         nodes c' = e # take (nat (capacity (dictionary_entry_cache d)) - 1)
                         (nodes (dictionary_entry_cache d)) \<and>
         count c' = int (length (nodes c')) \<and>
         count c' \<le> capacity (dictionary_entry_cache d)"
    by (intro exI[of _ c']) simp
qed

text \<open>
  The scenario of the specification on the local source: \<open>run\<close> is fetched from the
  source, then served by the cache.
\<close>

theorem search_cache_then_source_witness:
  "Dictionary_inv local_dictionary \<and>
   cache_miss ''run'' (dictionary_entry_cache local_dictionary) \<and>
   backing_search (dictionary local_dictionary) python_service ''run'' = Inr (Entry entry_run) \<and>
   fst (Dictionary_search python_service ''run'' local_dictionary) = Inr (Entry entry_run, LOCAL) \<and>
   nodes (dictionary_entry_cache (snd (Dictionary_search python_service ''run'' local_dictionary)))
     = [entry_run] \<and>
   fst (Dictionary_search python_service ''run''
          (snd (Dictionary_search python_service ''run'' local_dictionary)))
     = Inr (Entry entry_run, CACHE)"
proof -
  have inv: "Dictionary_inv local_dictionary"
    by (simp add: Dictionary_inv_def cache_inv_def local_dictionary_def empty_cache_def)
  have miss: "cache_miss ''run'' (dictionary_entry_cache local_dictionary)"
    by (simp add: cache_miss_def local_dictionary_def empty_cache_def)
  have src: "backing_search (dictionary local_dictionary) python_service ''run'' =
      Inr (Entry entry_run)"
    by (simp add: backing_search_def local_dictionary_def LocalDictionary_search_def local_run_def)
  have tier: "tier_of (dictionary local_dictionary) = LOCAL"
    by (simp add: local_dictionary_def)
  have nil: "nodes (dictionary_entry_cache local_dictionary) = []"
    by (simp add: local_dictionary_def empty_cache_def)
  from search_cache_then_source[OF inv, of "''run''" python_service] miss src
  obtain c' where
    first: "Dictionary_search python_service ''run'' local_dictionary =
        (Inr (Entry entry_run, LOCAL), local_dictionary\<lparr>dictionary_entry_cache := c'\<rparr>)"
      "nodes c' = [entry_run]"
    unfolding tier nil by auto
  have second: "fst (Dictionary_search python_service ''run''
      (local_dictionary\<lparr>dictionary_entry_cache := c'\<rparr>)) = Inr (Entry entry_run, CACHE)"
    using Dictionary_search_hit[of "local_dictionary\<lparr>dictionary_entry_cache := c'\<rparr>"
        "[]" entry_run "[]" "''run''" python_service] first(2)
    by (auto simp: entry_run_def)
  from inv miss src first second show ?thesis
    by simp
qed

text \<open>
  Where the backing source raises \<open>KeyError\<close> for the word and no resident entry
  carries it, \<open>Dictionary.search\<close> raises that \<open>KeyError\<close>, and the cache has the
  entries, in the order, and the \<open>count\<close> it had before the call; the backing source
  and the tag are untouched.
\<close>

lemma search_propagates_KeyError:
  assumes "cache_miss w (dictionary_entry_cache d)" and "backing_not_found (dictionary d) get w"
  shows "\<exists>m d'. Dictionary_search get w d = (Inl (KeyError m), d') \<and>
           nodes (dictionary_entry_cache d') = nodes (dictionary_entry_cache d) \<and>
           count (dictionary_entry_cache d') = count (dictionary_entry_cache d) \<and>
           capacity (dictionary_entry_cache d') = capacity (dictionary_entry_cache d) \<and>
           dictionary d' = dictionary d \<and> source d' = source d"
proof -
  from backing_not_found_KeyError[OF assms(2)] obtain m where
    m: "backing_search (dictionary d) get w = Inl (KeyError m)"
    by blast
  from Dictionary_search_miss_error[OF assms(1) m] obtain c' where
    "Dictionary_search get w d = (Inl (KeyError m), d\<lparr>dictionary_entry_cache := c'\<rparr>)"
    "nodes c' = nodes (dictionary_entry_cache d)" "count c' = count (dictionary_entry_cache d)"
    "capacity c' = capacity (dictionary_entry_cache d)"
    by blast
  then show ?thesis
    by (intro exI[of _ m] exI[of _ "d\<lparr>dictionary_entry_cache := c'\<rparr>"]) simp
qed

text \<open>
  The word \<open>walk\<close> on an orchestrator whose cache holds \<open>run\<close>: absent from the local
  dict, and answered with status 404 by the remote service.
\<close>

lemma search_propagates_KeyError_example:
  "cache_miss ''walk'' (dictionary_entry_cache local_with_run) \<and>
   backing_not_found (dictionary local_with_run) python_service ''walk'' \<and>
   fst (Dictionary_search python_service ''walk'' local_with_run) = Inl (KeyError ''walk'') \<and>
   nodes (dictionary_entry_cache (snd (Dictionary_search python_service ''walk'' local_with_run)))
     = [entry_run] \<and>
   count (dictionary_entry_cache (snd (Dictionary_search python_service ''walk'' local_with_run)))
     = 1 \<and>
   cache_miss ''walk'' (dictionary_entry_cache oxford_with_run) \<and>
   backing_not_found (dictionary oxford_with_run) python_service ''walk'' \<and>
   fst (Dictionary_search python_service ''walk'' oxford_with_run) = Inl (KeyError ''code 404'') \<and>
   nodes (dictionary_entry_cache (snd (Dictionary_search python_service ''walk'' oxford_with_run)))
     = [entry_run] \<and>
   count (dictionary_entry_cache (snd (Dictionary_search python_service ''walk'' oxford_with_run)))
     = 1"
proof -
  have l1: "cache_miss ''walk'' (dictionary_entry_cache local_with_run)"
    by code_simp
  have l2: "backing_not_found (dictionary local_with_run) python_service ''walk''"
    by (simp add: backing_not_found_def local_with_run_def local_dictionary_def local_run_def)
  have l3: "fst (Dictionary_search python_service ''walk'' local_with_run) = Inl (KeyError ''walk'')"
    by (simp add: local_with_run_def local_dictionary_def Dictionary_search_def empty_cache_def
        DictionaryEntryCache_search_def search_loop.simps reset_current_def iterate_def
        next_pos_def node_data_def entry_run_def backing_search_def LocalDictionary_search_def
        local_run_def)
  have l4: "nodes (dictionary_entry_cache local_with_run) = [entry_run]"
      "count (dictionary_entry_cache local_with_run) = 1"
    by (simp_all add: local_with_run_def empty_cache_def)
  have o1: "cache_miss ''walk'' (dictionary_entry_cache oxford_with_run)"
    by code_simp
  have o2: "backing_not_found (dictionary oxford_with_run) python_service ''walk''"
    by code_simp
  have o3: "fst (Dictionary_search python_service ''walk'' oxford_with_run) =
      Inl (KeyError ''code 404'')"
    by code_simp
  have o4: "nodes (dictionary_entry_cache oxford_with_run) = [entry_run]"
      "count (dictionary_entry_cache oxford_with_run) = 1"
    by (simp_all add: oxford_with_run_def empty_cache_def)
  from search_propagates_KeyError[OF l1 l2] search_propagates_KeyError[OF o1 o2]
  show ?thesis
    using l1 l2 l3 l4 o1 o2 o3 o4 by auto
qed

text \<open>
  C5 (miss propagation). The remote source has a route on which a word it does not have
  raises nothing: for an answer with status 200 and no field \<open>id\<close> it returns the string
  \<open>word not found\<close>. For the word \<open>walk\<close>, which no resident entry carries and which the
  service answers so, \<open>Dictionary.search\<close> on the remote source does not raise a
  \<open>KeyError\<close>: it raises the \<open>TypeError\<close> of the cache's \<open>add\<close>. The cache keeps its
  entries and its count.
\<close>

theorem absent_word_raises_TypeError:
  "cache_miss ''walk'' (dictionary_entry_cache oxford_with_run) \<and>
   snd (OxfordDictionary_search OxfordDictionary_init no_id_service ''walk'') =
     Inr (Str ''word not found'') \<and>
   fst (Dictionary_search no_id_service ''walk'' oxford_with_run) =
     Inl (TypeError ''entry should be DictionaryEntry'') \<and>
   (\<forall>m. fst (Dictionary_search no_id_service ''walk'' oxford_with_run) \<noteq> Inl (KeyError m)) \<and>
   nodes (dictionary_entry_cache (snd (Dictionary_search no_id_service ''walk'' oxford_with_run)))
     = nodes (dictionary_entry_cache oxford_with_run) \<and>
   count (dictionary_entry_cache (snd (Dictionary_search no_id_service ''walk'' oxford_with_run)))
     = count (dictionary_entry_cache oxford_with_run)"
proof -
  have miss: "cache_miss ''walk'' (dictionary_entry_cache oxford_with_run)"
    by code_simp
  have src: "snd (OxfordDictionary_search OxfordDictionary_init no_id_service ''walk'') =
      Inr (Str ''word not found'')"
    by code_simp
  have res: "fst (Dictionary_search no_id_service ''walk'' oxford_with_run) =
      Inl (TypeError ''entry should be DictionaryEntry'')"
    by code_simp
  have kept: "nodes (dictionary_entry_cache
        (snd (Dictionary_search no_id_service ''walk'' oxford_with_run))) =
      nodes (dictionary_entry_cache oxford_with_run)"
    "count (dictionary_entry_cache
        (snd (Dictionary_search no_id_service ''walk'' oxford_with_run))) =
      count (dictionary_entry_cache oxford_with_run)"
    by code_simp+
  from miss src res kept show ?thesis
    by simp
qed

text \<open>
  C9 (construction). A tag other than the remote and the local one, which for the
  enumeration \<open>DictionarySource\<close> is the tag \<open>CACHE\<close>, makes the constructor raise
  \<open>ValueError\<close>, whatever the local file holds: no orchestrator carries the tag \<open>CACHE\<close>.
\<close>

theorem init_rejects_other_tags:
  assumes "src \<noteq> OXFORD_ONLINE" and "src \<noteq> LOCAL"
  shows "src = CACHE \<and> Dictionary_init src local = Inl (ValueError []) \<and>
         (\<forall>s l d. Dictionary_init s l = Inr d \<longrightarrow> source d \<noteq> CACHE)"
proof -
  from assms have "src = CACHE" by (cases src) simp_all
  moreover have "Dictionary_init CACHE local = Inl (ValueError [])"
    by (simp add: Dictionary_init_def)
  moreover have "source d \<noteq> CACHE" if "Dictionary_init s l = Inr d" for s l d
  proof
    assume "source d = CACHE"
    with Dictionary_init_inv[OF that] have "s = CACHE" by simp
    with that show False by (simp add: Dictionary_init_def)
  qed
  ultimately show ?thesis by blast
qed

theorem init_rejects_other_tags_witness:
  "CACHE \<noteq> OXFORD_ONLINE \<and> CACHE \<noteq> LOCAL \<and>
   Dictionary_init CACHE (Inr local_run) = Inl (ValueError [])"
proof -
  have h1: "CACHE \<noteq> OXFORD_ONLINE" and h2: "CACHE \<noteq> LOCAL"
    by simp_all
  from init_rejects_other_tags[OF h1 h2, of "Inr local_run"] show ?thesis
    by simp
qed

text \<open>
  C6 (read-through). The claim as stated fails on the remote source: the request is made
  for the lowercased word and the record carries the service's identifier, while the
  cache is searched for the word as typed. The service below resolves \<open>Python\<close> to the
  record \<open>python\<close>; the word is not in the cache of a fresh orchestrator; and the second
  search in a row is answered by the source again, not by the cache.
\<close>

theorem repeated_search_counterexample:
  "Dictionary_init OXFORD_ONLINE (Inr local_run) = Inr oxford_dictionary \<and>
   cache_miss ''Python'' (dictionary_entry_cache oxford_dictionary) \<and>
   backing_search (dictionary oxford_dictionary) python_service ''Python'' =
     Inr (Entry entry_python) \<and>
   fst (search_n python_service ''Python'' 2 oxford_dictionary) =
     [Inr (Entry entry_python, OXFORD_ONLINE), Inr (Entry entry_python, OXFORD_ONLINE)] \<and>
   fst (search_n python_service ''Python'' 2 oxford_dictionary) \<noteq>
     [Inr (Entry entry_python, OXFORD_ONLINE), Inr (Entry entry_python, CACHE)]"
proof -
  have a: "Dictionary_init OXFORD_ONLINE (Inr local_run) = Inr oxford_dictionary"
    by (simp add: Dictionary_init_def oxford_dictionary_def DictionaryEntryCache_init_def
        empty_cache_def)
  have b: "cache_miss ''Python'' (dictionary_entry_cache oxford_dictionary)"
    by code_simp
  have c: "backing_search (dictionary oxford_dictionary) python_service ''Python'' =
      Inr (Entry entry_python)"
    by code_simp
  have d: "fst (search_n python_service ''Python'' 2 oxford_dictionary) =
      [Inr (Entry entry_python, OXFORD_ONLINE), Inr (Entry entry_python, OXFORD_ONLINE)]"
    by code_simp
  from a b c d show ?thesis by simp
qed

text \<open>
  C6, amended. When no resident entry carries the word and the backing source returns a
  record whose \<open>word\<close> is the word searched for, the first search returns that record with
  the tier of the source, and each of any number of searches repeated right after it
  returns the same record with the tier \<open>CACHE\<close>.
\<close>

theorem repeated_search_hits_cache:
  assumes "Dictionary_inv d" and "cache_miss w (dictionary_entry_cache d)"
    and "backing_search (dictionary d) get w = Inr (Entry e)" and "word e = JStr w"
  shows "fst (search_n get w (Suc n) d) =
           Inr (Entry e, tier_of (dictionary d)) # replicate n (Inr (Entry e, CACHE))"
proof -
  from assms(1) have inv: "cache_inv (dictionary_entry_cache d)"
    and tier: "source d = tier_of (dictionary d)"
    by (simp_all add: Dictionary_inv_def)
  from Dictionary_search_miss_Entry[OF inv assms(2,3)] obtain c' ys where
    first: "Dictionary_search get w d =
        (Inr (Entry e, source d), d\<lparr>dictionary_entry_cache := c'\<rparr>)"
    and nodes: "nodes c' = e # ys"
    by blast
  from nodes have "nodes (dictionary_entry_cache (d\<lparr>dictionary_entry_cache := c'\<rparr>)) = e # ys"
    by simp
  from search_n_hits[OF this assms(4), of get n]
  have "fst (search_n get w n (d\<lparr>dictionary_entry_cache := c'\<rparr>)) =
      replicate n (Inr (Entry e, CACHE))" .
  then show ?thesis
    by (auto simp: first tier split: prod.splits)
qed

theorem repeated_search_hits_cache_witness:
  "Dictionary_inv oxford_dictionary \<and>
   cache_miss ''python'' (dictionary_entry_cache oxford_dictionary) \<and>
   backing_search (dictionary oxford_dictionary) python_service ''python'' =
     Inr (Entry entry_python) \<and>
   word entry_python = JStr ''python'' \<and>
   fst (search_n python_service ''python'' (Suc 2) oxford_dictionary) =
     [Inr (Entry entry_python, OXFORD_ONLINE), Inr (Entry entry_python, CACHE),
      Inr (Entry entry_python, CACHE)]"
proof -
  have h1: "Dictionary_inv oxford_dictionary"
    by (simp add: Dictionary_inv_def cache_inv_def oxford_dictionary_def empty_cache_def)
  have h2: "cache_miss ''python'' (dictionary_entry_cache oxford_dictionary)"
    by code_simp
  have h3: "backing_search (dictionary oxford_dictionary) python_service ''python'' =
      Inr (Entry entry_python)"
    by code_simp
  have h4: "word entry_python = JStr ''python''"
    by (simp add: entry_python_def)
  have t: "tier_of (dictionary oxford_dictionary) = OXFORD_ONLINE"
    by (simp add: oxford_dictionary_def)
  from repeated_search_hits_cache[OF h1 h2 h3 h4, of 2] have
    "fst (search_n python_service ''python'' (Suc 2) oxford_dictionary) =
       [Inr (Entry entry_python, OXFORD_ONLINE), Inr (Entry entry_python, CACHE),
        Inr (Entry entry_python, CACHE)]"
    unfolding t by (simp only: replicate.simps numeral_2_eq_2)
  with h1 h2 h3 h4 show ?thesis by blast
qed

text \<open>
  C10 (the sentinel). When the service answers the request for a word with status 200
  and a JSON object that has no field \<open>id\<close>, \<open>OxfordDictionary.search\<close> returns the string
  \<open>word not found\<close>; and \<open>Dictionary.search\<close> on the remote source, for such a word that
  no resident entry carries, raises the \<open>TypeError\<close> of the cache's \<open>add\<close>, leaving the
  cache's entries and count as they were.
\<close>

theorem missing_id_gives_sentinel:
  assumes "get (oxford_url w) (oxford_headers ox) = Inr r" and "status_code r = 200"
    and "json_body r = Inr (JObj kvs)" and "map_of kvs ''id'' = None"
  shows "snd (OxfordDictionary_search ox get w) = Inr (Str ''word not found'') \<and>
         (\<forall>d. dictionary d = Oxford ox \<and> cache_miss w (dictionary_entry_cache d) \<longrightarrow>
            (\<exists>d'. Dictionary_search get w d =
                     (Inl (TypeError ''entry should be DictionaryEntry''), d') \<and>
                   nodes (dictionary_entry_cache d') = nodes (dictionary_entry_cache d) \<and>
                   count (dictionary_entry_cache d') = count (dictionary_entry_cache d)))"
proof -
  from assms have ox: "snd (OxfordDictionary_search ox get w) = Inr (Str ''word not found'')"
    by (simp add: OxfordDictionary_search_def oxford_decode_def Let_def)
  have "\<exists>d'. Dictionary_search get w d =
             (Inl (TypeError ''entry should be DictionaryEntry''), d') \<and>
           nodes (dictionary_entry_cache d') = nodes (dictionary_entry_cache d) \<and>
           count (dictionary_entry_cache d') = count (dictionary_entry_cache d)"
    if d: "dictionary d = Oxford ox" "cache_miss w (dictionary_entry_cache d)" for d
  proof -
    from ox d(1) have "backing_search (dictionary d) get w = Inr (Str ''word not found'')"
      by (simp add: backing_search_def)
    from Dictionary_search_miss_Str[OF d(2) this] show ?thesis
      by auto
  qed
  with ox show ?thesis by blast
qed

theorem missing_id_gives_sentinel_witness:
  "no_id_service (oxford_url ''walk'') (oxford_headers OxfordDictionary_init) =
     Inr \<lparr>status_code = 200, json_body = Inr (JObj [(''error'', JStr ''No entry found'')])\<rparr> \<and>
   map_of [(''error'', JStr ''No entry found'')] ''id'' = None \<and>
   snd (OxfordDictionary_search OxfordDictionary_init no_id_service ''walk'') =
     Inr (Str ''word not found'') \<and>
   dictionary oxford_with_run = Oxford OxfordDictionary_init \<and>
   cache_miss ''walk'' (dictionary_entry_cache oxford_with_run) \<and>
   fst (Dictionary_search no_id_service ''walk'' oxford_with_run) =
     Inl (TypeError ''entry should be DictionaryEntry'') \<and>
   nodes (dictionary_entry_cache (snd (Dictionary_search no_id_service ''walk'' oxford_with_run)))
     = [entry_run]"
proof -
  let ?r = "\<lparr>status_code = 200, json_body = Inr (JObj [(''error'', JStr ''No entry found'')])\<rparr>"
  have h1: "no_id_service (oxford_url ''walk'') (oxford_headers OxfordDictionary_init) = Inr ?r"
    by (simp add: no_id_service_def)
  have h2: "status_code ?r = 200" by simp
  have h3: "json_body ?r = Inr (JObj [(''error'', JStr ''No entry found'')])" by simp
  have h4: "map_of [(''error'', JStr ''No entry found'')] ''id'' = None" by simp
  have d1: "dictionary oxford_with_run = Oxford OxfordDictionary_init"
    by (simp add: oxford_with_run_def oxford_dictionary_def)
  have d2: "cache_miss ''walk'' (dictionary_entry_cache oxford_with_run)"
    by code_simp
  have d3: "nodes (dictionary_entry_cache oxford_with_run) = [entry_run]"
    by (simp add: oxford_with_run_def empty_cache_def)
  from missing_id_gives_sentinel[where get = no_id_service and w = "''walk''"
      and ox = OxfordDictionary_init, OF h1 h2 h3 h4] d1 d2 d3 h1 h4
  show ?thesis
    by auto
qed

text \<open>
  C7 (the request). For the word \<open>Python\<close>, \<open>OxfordDictionary.search\<close> issues one GET with
  the two credentials, to a URL in which a space stands between the path separator and
  the lowercased word.
\<close>

theorem request_for_Python:
  "fst (OxfordDictionary_search OxfordDictionary_init get ''Python'') =
     [(''https://od-api.oxforddictionaries.com:443/api/v2/entries/en-gb/ python'',
       [(''app_id'', ''5a065188''), (''app_key'', ''cb986155975e3c58923550cdd197660c'')])] \<and>
   oxford_url ''Python'' \<noteq>
     ''https://od-api.oxforddictionaries.com:443/api/v2/entries/'' @ ''en-gb'' @ ''/'' @ lower ''Python''"
proof -
  have u: "oxford_url ''Python'' =
      ''https://od-api.oxforddictionaries.com:443/api/v2/entries/en-gb/ python''"
    by code_simp
  have l: "lower ''Python'' = ''python''"
    by code_simp
  show ?thesis
    by (simp add: OxfordDictionary_search_def Let_def u l oxford_headers_def
        OxfordDictionary_init_def)
qed

end
